theory Spec2Isabelle
  imports Complex_Main "HOL-Library.Word"
begin

section \<open>PD-StartGate: the start gate controller of PD-StartGate.ino\<close>

text \<open>
  The sketch targets the Arduino Uno: \<open>UINT8\<close> is \<open>unsigned char\<close> (8 bits),
  \<open>UINT16\<close> is \<open>unsigned int\<close> (16 bits on the AVR) and \<open>unsigned long\<close>, the result
  type of \<open>millis()\<close>, has 32 bits. Arithmetic on all three wraps around.
\<close>

type_synonym UINT8 = "8 word"
type_synonym UINT16 = "16 word"
type_synonym UINT32 = "32 word"

subsection \<open>Pins, constants and states\<close>

type_synonym pin = nat

definition SCOPE_PIN :: pin where "SCOPE_PIN = 8"
definition SW_OPEN :: pin where "SW_OPEN = 10"
definition SW_DISABLE :: pin where "SW_DISABLE = 11"
definition SOLENOID_EN :: pin where "SOLENOID_EN = 12"
definition LED_DISABLE :: pin where "LED_DISABLE = 13"

definition DEBOUNCE_MS :: UINT16 where "DEBOUNCE_MS = 20"

definition S_WAIT_FOR_ENABLE :: UINT8 where "S_WAIT_FOR_ENABLE = 1"
definition S_WAIT_FOR_OPEN :: UINT8 where "S_WAIT_FOR_OPEN = 2"
definition S_OPEN :: UINT8 where "S_OPEN = 3"
definition S_CLOSE :: UINT8 where "S_CLOSE = 4"

definition SOLENOID_TIME_ON_MS :: UINT16 where "SOLENOID_TIME_ON_MS = 500"
definition SOLENOID_TIME_OFF_MS :: UINT16 where "SOLENOID_TIME_OFF_MS = 5000"

subsection \<open>The board: digital pins and the millisecond clock\<close>

text \<open>
  The sketch talks to the board through \<open>digitalRead\<close>, \<open>digitalWrite\<close> and \<open>millis\<close>
  of the Arduino core. The board is a record: the level of every pin (an input pin is
  driven by its switch, an output pin keeps what was last written), the values the next
  calls of \<open>millis()\<close> will return, and the log of every call made so far, oldest first.
  A call of \<open>millis()\<close> when no reading is left has no result: the clock trace ended
  before the program did.
\<close>

datatype level = LOW | HIGH

datatype event = Read pin level | Write pin level | Millis UINT32

record board =
  pins :: "pin \<Rightarrow> level"
  clock :: "UINT32 list"
  trace :: "event list"

definition digitalRead :: "pin \<Rightarrow> board \<Rightarrow> level \<times> board" where
  "digitalRead p b = (pins b p, b\<lparr>trace := trace b @ [Read p (pins b p)]\<rparr>)"

definition digitalWrite :: "pin \<Rightarrow> level \<Rightarrow> board \<Rightarrow> board" where
  "digitalWrite p v b = b\<lparr>pins := (pins b)(p := v), trace := trace b @ [Write p v]\<rparr>"

definition millis :: "board \<Rightarrow> (UINT32 \<times> board) option" where
  "millis b =
     (case clock b of
        [] \<Rightarrow> None
      | t # ts \<Rightarrow> Some (t, b\<lparr>clock := ts, trace := trace b @ [Millis t]\<rparr>))"

text \<open>C's \<open>!x\<close> on a pin level.\<close>

fun lnot :: "level \<Rightarrow> level" where
  "lnot LOW = HIGH"
| "lnot HIGH = LOW"

subsection \<open>The state machine: the \<open>switch (state)\<close> of \<open>loop()\<close>\<close>

text \<open>
  Each branch returns the new value of the static variable \<open>state\<close>, the value of
  \<open>delay_ms\<close> and the board. \<open>&&\<close> and \<open>else if\<close> read the second switch only when
  the first test lets them.
\<close>

definition case_wait_for_enable :: "UINT8 \<Rightarrow> board \<Rightarrow> UINT8 \<times> UINT16 \<times> board" where
  "case_wait_for_enable state b =
     (let (dis, b1) = digitalRead SW_DISABLE b;
          (both, b2) = (if dis = HIGH
                        then (let (opn, b') = digitalRead SW_OPEN b1 in (opn = HIGH, b'))
                        else (False, b1));
          state' = (if both then S_WAIT_FOR_OPEN else state);
          b3 = digitalWrite SOLENOID_EN LOW b2;
          b4 = digitalWrite LED_DISABLE HIGH b3
      in (state', DEBOUNCE_MS, b4))"

definition case_wait_for_open :: "UINT8 \<Rightarrow> board \<Rightarrow> UINT8 \<times> UINT16 \<times> board" where
  "case_wait_for_open state b =
     (let (dis, b1) = digitalRead SW_DISABLE b;
          (state', b2) = (if dis = LOW then (S_WAIT_FOR_ENABLE, b1)
                          else (let (opn, b') = digitalRead SW_OPEN b1
                                in (if opn = LOW then S_OPEN else state, b')));
          b3 = digitalWrite SOLENOID_EN LOW b2;
          b4 = digitalWrite LED_DISABLE LOW b3
      in (state', DEBOUNCE_MS, b4))"

definition case_open :: "board \<Rightarrow> UINT8 \<times> UINT16 \<times> board" where
  "case_open b =
     (let b1 = digitalWrite LED_DISABLE HIGH b;
          b2 = digitalWrite SOLENOID_EN HIGH b1
      in (S_CLOSE, SOLENOID_TIME_ON_MS, b2))"

definition case_close :: "board \<Rightarrow> UINT8 \<times> UINT16 \<times> board" where
  "case_close b = (S_WAIT_FOR_ENABLE, SOLENOID_TIME_OFF_MS, digitalWrite SOLENOID_EN LOW b)"

definition case_default :: "board \<Rightarrow> UINT8 \<times> UINT16 \<times> board" where
  "case_default b = (S_WAIT_FOR_ENABLE, DEBOUNCE_MS, digitalWrite SOLENOID_EN LOW b)"

definition loop_switch :: "UINT8 \<Rightarrow> board \<Rightarrow> UINT8 \<times> UINT16 \<times> board" where
  "loop_switch state b =
     (if state = S_WAIT_FOR_ENABLE then case_wait_for_enable state b
      else if state = S_WAIT_FOR_OPEN then case_wait_for_open state b
      else if state = S_OPEN then case_open b
      else if state = S_CLOSE then case_close b
      else case_default b)"

subsection \<open>The dwell: the \<open>while (delay_ms)\<close> of \<open>loop()\<close>\<close>

text \<open>
  The local variables of the wait. \<open>decrements\<close> and \<open>ticks\<close> are auxiliary counters
  that the sketch does not have: they count how often \<open>delay_ms--\<close> and \<open>time_last++\<close>
  were executed, and nothing reads them.
\<close>

record dwell =
  delay_ms :: UINT16
  time_last :: UINT16
  decrements :: nat
  ticks :: nat

text \<open>The inner loop \<open>while (time_last != time_cur)\<close>.\<close>

function catch_up :: "UINT16 \<Rightarrow> dwell \<Rightarrow> dwell" where
  "catch_up time_cur v =
     (if time_last v \<noteq> time_cur
      then catch_up time_cur
             (v\<lparr>delay_ms := (if delay_ms v \<noteq> 0 then delay_ms v - 1 else delay_ms v),
                decrements := (if delay_ms v \<noteq> 0 then decrements v + 1 else decrements v),
                time_last := time_last v + 1,
                ticks := ticks v + 1\<rparr>)
      else v)"
  by pat_completeness auto
termination
proof (relation "measure (\<lambda>(time_cur, v). unat (time_cur - time_last v))")
  show "wf (measure (\<lambda>(time_cur, v). unat (time_cur - time_last v)))"
    by simp
next
  fix time_cur :: UINT16 and v :: dwell
  assume "time_last v \<noteq> time_cur"
  then have nz: "time_cur - time_last v \<noteq> 0"
    by simp
  have eq: "time_cur - (time_last v + 1) = (time_cur - time_last v) - 1"
    by (simp only: diff_diff_eq)
  have "unat ((time_cur - time_last v) - 1) = unat (time_cur - time_last v) - 1"
    using nz by (rule unat_minus_one)
  moreover have "0 < unat (time_cur - time_last v)"
    using nz by (simp add: unat_gt_0)
  ultimately have "unat ((time_cur - time_last v) - 1) < unat (time_cur - time_last v)"
    by arith
  then have "unat (time_cur - (time_last v + 1)) < unat (time_cur - time_last v)"
    by (simp only: eq)
  then show "((time_cur,
               v\<lparr>delay_ms := (if delay_ms v \<noteq> 0 then delay_ms v - 1 else delay_ms v),
                  decrements := (if delay_ms v \<noteq> 0 then decrements v + 1 else decrements v),
                  time_last := time_last v + 1,
                  ticks := ticks v + 1\<rparr>),
              (time_cur, v)) \<in> measure (\<lambda>(time_cur, v). unat (time_cur - time_last v))"
    by simp
qed

text \<open>
  The outer loop \<open>while (delay_ms)\<close>: toggle the scope pin, read the clock into the
  16-bit \<open>time_cur\<close>, catch up. Every pass takes one reading from the clock trace.
\<close>

function dwell_while :: "dwell \<Rightarrow> board \<Rightarrow> (dwell \<times> board) option" where
  "dwell_while v b =
     (if delay_ms v \<noteq> 0
      then (let (scope, b1) = digitalRead SCOPE_PIN b;
                b2 = digitalWrite SCOPE_PIN (lnot scope) b1
            in case millis b2 of
                 None \<Rightarrow> None
               | Some (t, b3) \<Rightarrow> dwell_while (catch_up (ucast t) v) b3)
      else Some (v, b))"
  by pat_completeness auto
termination
  by (relation "measure (\<lambda>(v, b). length (clock b))")
     (auto simp: millis_def digitalRead_def digitalWrite_def split: list.splits)

text \<open>\<open>time_last = millis();\<close> and the loop.\<close>

definition loop_dwell :: "UINT16 \<Rightarrow> board \<Rightarrow> (dwell \<times> board) option" where
  "loop_dwell d b =
     (case millis b of
        None \<Rightarrow> None
      | Some (t, b1) \<Rightarrow>
          dwell_while \<lparr>delay_ms = d, time_last = ucast t, decrements = 0, ticks = 0\<rparr> b1)"

subsection \<open>One call of \<open>loop()\<close>, and the calls one after another\<close>

text \<open>
  \<open>loop\<close> takes the static variable \<open>state\<close> and the board and returns both:
  the switch, the dwell, and the last \<open>digitalWrite(SOLENOID_EN, LOW)\<close>.
\<close>

definition loop :: "UINT8 \<Rightarrow> board \<Rightarrow> (UINT8 \<times> board) option" where
  "loop state b =
     (let (state', d, b1) = loop_switch state b
      in case loop_dwell d b1 of
           None \<Rightarrow> None
         | Some (v, b2) \<Rightarrow> Some (state', digitalWrite SOLENOID_EN LOW b2))"

text \<open>
  The Arduino core calls \<open>loop()\<close> again and again. Before each call the world sets the
  two switches (\<open>switches\<close>) and the readings the clock will give during that call;
  the output pins keep their levels.
\<close>

definition switches :: "level \<Rightarrow> level \<Rightarrow> board \<Rightarrow> board" where
  "switches dis opn b = b\<lparr>pins := (pins b)(SW_DISABLE := dis, SW_OPEN := opn)\<rparr>"

definition world :: "level \<Rightarrow> level \<Rightarrow> UINT32 list \<Rightarrow> board \<Rightarrow> board" where
  "world dis opn ts b = (switches dis opn b)\<lparr>clock := ts\<rparr>"

fun run :: "UINT8 \<Rightarrow> board \<Rightarrow> (level \<times> level \<times> UINT32 list) list \<Rightarrow> (UINT8 \<times> board) option" where
  "run state b [] = Some (state, b)"
| "run state b ((dis, opn, ts) # ws) =
     (case loop state (world dis opn ts b) of
        None \<Rightarrow> None
      | Some (state', b') \<Rightarrow> run state' b' ws)"

text \<open>
  The switch alone, call after call, leaving the dwell out: for each pair of switch
  levels the state the call leaves in \<open>state\<close>, its \<open>delay_ms\<close>, and the level of the
  solenoid pin when the switch is left.
\<close>

fun steps :: "UINT8 \<Rightarrow> board \<Rightarrow> (level \<times> level) list \<Rightarrow> (UINT8 \<times> UINT16 \<times> level) list" where
  "steps state b [] = []"
| "steps state b ((dis, opn) # ws) =
     (let (state', d, b') = loop_switch state (switches dis opn b)
      in (state', d, pins b' SOLENOID_EN) # steps state' b' ws)"

text \<open>The states that send the switch to its \<open>default:\<close> branch.\<close>

definition takes_default :: "UINT8 \<Rightarrow> bool" where
  "takes_default state =
     (state \<noteq> S_WAIT_FOR_ENABLE \<and> state \<noteq> S_WAIT_FOR_OPEN \<and> state \<noteq> S_OPEN \<and> state \<noteq> S_CLOSE)"

text \<open>
  The board after one pass of the outer loop of the dwell that read \<open>r\<close> from the clock
  and left the readings \<open>rs\<close>.
\<close>

definition poll :: "UINT32 \<Rightarrow> UINT32 list \<Rightarrow> board \<Rightarrow> board" where
  "poll r rs b =
     b\<lparr>pins := (pins b)(SCOPE_PIN := lnot (pins b SCOPE_PIN)),
       clock := rs,
       trace := trace b @ [Read SCOPE_PIN (pins b SCOPE_PIN),
                           Write SCOPE_PIN (lnot (pins b SCOPE_PIN)), Millis r]\<rparr>"

text \<open>
  The board when \<open>setup()\<close> has returned and no switch is pressed: the two inputs are
  pulled up, every output is low, nothing has been logged.
\<close>

definition board_after_setup :: board where
  "board_after_setup =
     \<lparr>pins = (\<lambda>p. if p = SW_OPEN \<or> p = SW_DISABLE then HIGH else LOW),
      clock = [],
      trace = []\<rparr>"

subsection \<open>Clock traces and kinds of events\<close>

text \<open>
  \<open>advance t rs\<close> is the number of milliseconds the 32-bit clock moves from the reading
  \<open>t\<close> through the later readings \<open>rs\<close>, \<open>observed l rs\<close> the number the 16-bit
  \<open>time_last\<close>, starting at \<open>l\<close>, can tell from them, and \<open>polled_in_time t rs\<close> says that less than
  65536 ms pass between one reading and the next.
\<close>

fun advance :: "UINT32 \<Rightarrow> UINT32 list \<Rightarrow> nat" where
  "advance t [] = 0"
| "advance t (r # rs) = unat (r - t) + advance r rs"

fun observed :: "UINT16 \<Rightarrow> UINT32 list \<Rightarrow> nat" where
  "observed l [] = 0"
| "observed l (r # rs) = unat (ucast r - l) + observed (ucast r) rs"

fun polled_in_time :: "UINT32 \<Rightarrow> UINT32 list \<Rightarrow> bool" where
  "polled_in_time t [] = True"
| "polled_in_time t (r # rs) = (unat (r - t) < 65536 \<and> polled_in_time r rs)"

text \<open>
  The calls the switch can make (a read of a switch, a write to the solenoid or the LED)
  and the calls the dwell can make (\<open>millis()\<close>, a read or a write of the scope pin).
\<close>

fun switch_event :: "event \<Rightarrow> bool" where
  "switch_event (Read p v) = (p = SW_DISABLE \<or> p = SW_OPEN)"
| "switch_event (Write p v) = (p = SOLENOID_EN \<or> p = LED_DISABLE)"
| "switch_event (Millis t) = False"

fun dwell_event :: "event \<Rightarrow> bool" where
  "dwell_event (Read p v) = (p = SCOPE_PIN)"
| "dwell_event (Write p v) = (p = SCOPE_PIN)"
| "dwell_event (Millis t) = True"

text \<open>What a piece of the program added to the log, and the writes to one pin in it.\<close>

definition events_since :: "board \<Rightarrow> board \<Rightarrow> event list" where
  "events_since b b' = drop (length (trace b)) (trace b')"

fun writes_to :: "pin \<Rightarrow> event list \<Rightarrow> level list" where
  "writes_to p [] = []"
| "writes_to p (Write q v # es) = (if q = p then v # writes_to p es else writes_to p es)"
| "writes_to p (_ # es) = writes_to p es"

section \<open>Properties\<close>

lemmas pin_defs = SCOPE_PIN_def SW_OPEN_def SW_DISABLE_def SOLENOID_EN_def LED_DISABLE_def

lemmas state_defs = S_WAIT_FOR_ENABLE_def S_WAIT_FOR_OPEN_def S_OPEN_def S_CLOSE_def

lemmas time_defs = DEBOUNCE_MS_def SOLENOID_TIME_ON_MS_def SOLENOID_TIME_OFF_MS_def

lemmas switch_defs = loop_switch_def case_wait_for_enable_def case_wait_for_open_def
  case_open_def case_close_def case_default_def digitalRead_def digitalWrite_def Let_def

declare catch_up.simps [simp del] dwell_while.simps [simp del]

subsection \<open>Logs\<close>

lemma writes_to_append: "writes_to p (xs @ ys) = writes_to p xs @ writes_to p ys"
  by (induction p xs rule: writes_to.induct) auto

lemma dwell_events_no_led: "list_all dwell_event evs \<Longrightarrow> writes_to LED_DISABLE evs = []"
  by (induction LED_DISABLE evs rule: writes_to.induct) (auto simp: pin_defs)

subsection \<open>From the 32-bit clock to the 16-bit \<open>time_cur\<close>\<close>

lemma word_of_int_mod_16_32: "(word_of_int (k mod 2 ^ 32) :: 16 word) = word_of_int k"
proof -
  have "(2::int) ^ 16 dvd 2 ^ 32"
    by (rule le_imp_power_dvd) simp
  then have "k mod 2 ^ 32 mod 2 ^ 16 = k mod 2 ^ 16"
    by (rule mod_mod_cancel)
  then have "take_bit LENGTH(16) (k mod 2 ^ 32) = take_bit LENGTH(16) k"
    by (simp only: take_bit_eq_mod len_bit0 len_num1 mult_1_right) simp
  then show ?thesis
    by (simp only: word_of_int_eq_iff)
qed

lemma ucast_diff_16_32: "(ucast (r - t :: 32 word) :: 16 word) = ucast r - ucast t"
proof -
  have "(ucast (r - t) :: 16 word) = word_of_int (uint (r - t))"
    by (rule ucast_eq)
  also have "\<dots> = word_of_int ((uint r - uint t) mod 2 ^ 32)"
  proof -
    have "uint (r - t) = (uint r - uint t) mod 2 ^ 32"
      using uint_word_ariths(2) [of r t] by simp
    then show ?thesis
      by (rule arg_cong)
  qed
  also have "\<dots> = (word_of_int (uint r - uint t) :: 16 word)"
    by (rule word_of_int_mod_16_32)
  also have "\<dots> = ucast r - ucast t"
    by simp
  finally show ?thesis .
qed

lemma unat_ucast_16_32: "unat (x :: 32 word) < 65536 \<Longrightarrow> unat (ucast x :: 16 word) = unat x"
  by (simp add: unsigned_ucast_eq take_bit_nat_eq_self)

lemma observed_eq_advance: "polled_in_time t rs \<Longrightarrow> observed (ucast t) rs = advance t rs"
proof (induction rs arbitrary: t)
  case Nil
  show ?case by simp
next
  case (Cons r rs)
  then have g: "unat (r - t) < 65536" and p: "polled_in_time r rs"
    by simp_all
  have "unat (ucast r - ucast t :: 16 word) = unat (ucast (r - t) :: 16 word)"
    by (simp only: ucast_diff_16_32)
  also have "\<dots> = unat (r - t)"
    using g by (rule unat_ucast_16_32)
  finally show ?case
    using Cons.IH [OF p] by simp
qed

lemma polled_in_time_take: "polled_in_time t rs \<Longrightarrow> polled_in_time t (take k rs)"
proof (induction rs arbitrary: t k)
  case Nil
  show ?case by simp
next
  case (Cons r rs)
  then show ?case by (cases k) simp_all
qed

subsection \<open>The inner loop in closed form\<close>

lemma unat_diff_Suc_16:
  fixes tc l :: "16 word"
  assumes "l \<noteq> tc"
  shows "unat (tc - l) = Suc (unat (tc - (l + 1)))"
proof -
  from assms have nz: "tc - l \<noteq> 0" by simp
  have eq: "tc - (l + 1) = (tc - l) - 1" by (simp only: diff_diff_eq)
  have "unat ((tc - l) - 1) = unat (tc - l) - 1" using nz by (rule unat_minus_one)
  moreover have "0 < unat (tc - l)" using nz by (simp add: unat_gt_0)
  ultimately have "unat (tc - l) = Suc (unat ((tc - l) - 1))" by arith
  then show ?thesis by (simp only: eq)
qed

text \<open>
  A pass that finds the clock \<open>n\<close> ticks ahead of \<open>time_last\<close> runs \<open>time_last++\<close>
  \<open>n\<close> times and \<open>delay_ms--\<close> as often as \<open>delay_ms\<close> is not yet 0.
\<close>

lemma catch_up_fields:
  "unat (delay_ms (catch_up tc v)) = unat (delay_ms v) - unat (tc - time_last v)
   \<and> time_last (catch_up tc v) = tc
   \<and> decrements (catch_up tc v) = decrements v + min (unat (delay_ms v)) (unat (tc - time_last v))
   \<and> ticks (catch_up tc v) = ticks v + unat (tc - time_last v)"
proof (induction tc v rule: catch_up.induct)
  case (1 tc v)
  show ?case
  proof (cases "time_last v = tc")
    case True
    then show ?thesis by (simp add: catch_up.simps [of tc v])
  next
    case False
    let ?v = "v\<lparr>delay_ms := (if delay_ms v \<noteq> 0 then delay_ms v - 1 else delay_ms v),
                decrements := (if delay_ms v \<noteq> 0 then decrements v + 1 else decrements v),
                time_last := time_last v + 1,
                ticks := ticks v + 1\<rparr>"
    have step: "catch_up tc v = catch_up tc ?v"
      using False by (simp add: catch_up.simps [of tc v])
    have n: "unat (tc - time_last v) = Suc (unat (tc - (time_last v + 1)))"
      using False by (rule unat_diff_Suc_16)
    have d: "delay_ms v \<noteq> 0 \<Longrightarrow> unat (delay_ms v - 1) = unat (delay_ms v) - 1"
      by (rule unat_minus_one)
    have d0: "delay_ms v \<noteq> 0 \<Longrightarrow> 0 < unat (delay_ms v)"
      by (simp add: unat_gt_0)
    from "1.IH" [OF False] show ?thesis
      unfolding step using n d d0 by (cases "delay_ms v = 0") auto
  qed
qed

subsection \<open>The outer loop\<close>

lemma dwell_while_zero: "delay_ms v = 0 \<Longrightarrow> dwell_while v b = Some (v, b)"
  by (simp add: dwell_while.simps [of v b])

lemma dwell_while_empty: "delay_ms v \<noteq> 0 \<Longrightarrow> clock b = [] \<Longrightarrow> dwell_while v b = None"
  by (simp add: dwell_while.simps [of v b] digitalRead_def digitalWrite_def millis_def)

lemma dwell_while_poll:
  "delay_ms v \<noteq> 0 \<Longrightarrow> clock b = r # rs \<Longrightarrow>
   dwell_while v b = dwell_while (catch_up (ucast r) v) (poll r rs b)"
  by (simp add: dwell_while.simps [of v b] digitalRead_def digitalWrite_def millis_def poll_def)

lemma dwell_while_returns:
  "unat (delay_ms v) \<le> observed (time_last v) (clock b) \<Longrightarrow>
   \<exists>k v' b'. dwell_while v b = Some (v', b') \<and> k \<le> length (clock b) \<and> clock b' = drop k (clock b)
     \<and> delay_ms v' = 0 \<and> decrements v' = decrements v + unat (delay_ms v)
     \<and> ticks v' = ticks v + observed (time_last v) (take k (clock b))
     \<and> unat (delay_ms v) \<le> observed (time_last v) (take k (clock b))"
proof (induction "clock b" arbitrary: v b)
  case Nil
  then have "delay_ms v = 0"
    by (simp add: unat_eq_0)
  then have "dwell_while v b = Some (v, b) \<and> (0::nat) \<le> length (clock b) \<and> clock b = drop 0 (clock b)
     \<and> delay_ms v = 0 \<and> decrements v = decrements v + unat (delay_ms v)
     \<and> ticks v = ticks v + observed (time_last v) (take 0 (clock b))
     \<and> unat (delay_ms v) \<le> observed (time_last v) (take 0 (clock b))"
    by (simp add: dwell_while_zero)
  then show ?case by blast
next
  case (Cons r rs)
  show ?case
  proof (cases "delay_ms v = 0")
    case True
    then have "dwell_while v b = Some (v, b) \<and> (0::nat) \<le> length (clock b) \<and> clock b = drop 0 (clock b)
       \<and> delay_ms v = 0 \<and> decrements v = decrements v + unat (delay_ms v)
       \<and> ticks v = ticks v + observed (time_last v) (take 0 (clock b))
       \<and> unat (delay_ms v) \<le> observed (time_last v) (take 0 (clock b))"
      by (simp add: dwell_while_zero)
    then show ?thesis by blast
  next
    case False
    let ?v = "catch_up (ucast r) v" and ?b = "poll r rs b"
    have cl: "clock b = r # rs"
      using Cons.hyps(2) by simp
    have step: "dwell_while v b = dwell_while ?v ?b"
      using False cl by (rule dwell_while_poll)
    have f: "unat (delay_ms ?v) = unat (delay_ms v) - unat (ucast r - time_last v)"
      "time_last ?v = ucast r"
      "decrements ?v = decrements v + min (unat (delay_ms v)) (unat (ucast r - time_last v))"
      "ticks ?v = ticks v + unat (ucast r - time_last v)"
      using catch_up_fields [of "ucast r" v] by simp_all
    have "rs = clock ?b"
      by (simp add: poll_def)
    moreover have "unat (delay_ms ?v) \<le> observed (time_last ?v) (clock ?b)"
      using Cons.prems cl f by (simp add: poll_def)
    ultimately obtain k v' b' where r: "dwell_while ?v ?b = Some (v', b')" "k \<le> length (clock ?b)"
      "clock b' = drop k (clock ?b)" "delay_ms v' = 0"
      "decrements v' = decrements ?v + unat (delay_ms ?v)"
      "ticks v' = ticks ?v + observed (time_last ?v) (take k (clock ?b))"
      "unat (delay_ms ?v) \<le> observed (time_last ?v) (take k (clock ?b))"
      using Cons.hyps(1) [of ?b ?v] by blast
    have "dwell_while v b = Some (v', b') \<and> Suc k \<le> length (clock b)
       \<and> clock b' = drop (Suc k) (clock b) \<and> delay_ms v' = 0
       \<and> decrements v' = decrements v + unat (delay_ms v)
       \<and> ticks v' = ticks v + observed (time_last v) (take (Suc k) (clock b))
       \<and> unat (delay_ms v) \<le> observed (time_last v) (take (Suc k) (clock b))"
    proof -
      have c: "clock ?b = rs"
        by (simp add: poll_def)
      have "decrements v' = decrements v + unat (delay_ms v)"
        using r(5) f by arith
      moreover have "ticks v' = ticks v + observed (time_last v) (take (Suc k) (clock b))"
        using r(6) f cl c by simp
      moreover have "unat (delay_ms v) \<le> observed (time_last v) (take (Suc k) (clock b))"
        using r(7) f cl c by simp
      ultimately show ?thesis
        using r(1-4) cl c by (simp add: step)
    qed
    then show ?thesis by blast
  qed
qed

lemma dwell_while_None:
  "observed (time_last v) (clock b) < unat (delay_ms v) \<Longrightarrow> dwell_while v b = None"
proof (induction "clock b" arbitrary: v b)
  case Nil
  then have "delay_ms v \<noteq> 0" by auto
  then show ?case using Nil.hyps by (simp add: dwell_while_empty)
next
  case (Cons r rs)
  let ?v = "catch_up (ucast r) v" and ?b = "poll r rs b"
  have nz: "delay_ms v \<noteq> 0" using Cons.prems by auto
  have cl: "clock b = r # rs"
    using Cons.hyps(2) by simp
  have step: "dwell_while v b = dwell_while ?v ?b"
    using nz cl by (rule dwell_while_poll)
  have f: "unat (delay_ms ?v) = unat (delay_ms v) - unat (ucast r - time_last v)"
      "time_last ?v = ucast r"
    using catch_up_fields [of "ucast r" v] by simp_all
  have "rs = clock ?b"
    by (simp add: poll_def)
  moreover have "observed (time_last ?v) (clock ?b) < unat (delay_ms ?v)"
    using Cons.prems cl f by (simp add: poll_def)
  ultimately have "dwell_while ?v ?b = None"
    by (rule Cons.hyps(1))
  then show ?case by (simp add: step)
qed

lemma dwell_while_events:
  "dwell_while v b = Some (v', b') \<Longrightarrow>
   \<exists>evs. trace b' = trace b @ evs \<and> list_all dwell_event evs
     \<and> (\<forall>p. p \<noteq> SCOPE_PIN \<longrightarrow> pins b' p = pins b p)"
proof (induction "clock b" arbitrary: v b)
  case Nil
  then have "delay_ms v = 0"
    using dwell_while_empty [of v b] by (cases "delay_ms v = 0") auto
  then have "b' = b" using Nil.prems by (simp add: dwell_while_zero)
  then show ?case by simp
next
  case (Cons r rs)
  show ?case
  proof (cases "delay_ms v = 0")
    case True
    then have "b' = b" using Cons.prems by (simp add: dwell_while_zero)
    then show ?thesis by simp
  next
    case False
    let ?v = "catch_up (ucast r) v" and ?b = "poll r rs b"
    have cl: "clock b = r # rs"
      using Cons.hyps(2) by simp
    have step: "dwell_while v b = dwell_while ?v ?b"
      using False cl by (rule dwell_while_poll)
    have "rs = clock ?b"
      by (simp add: poll_def)
    moreover have "dwell_while ?v ?b = Some (v', b')"
      using Cons.prems by (simp add: step)
    ultimately obtain evs where e: "trace b' = trace ?b @ evs" "list_all dwell_event evs"
      "\<forall>p. p \<noteq> SCOPE_PIN \<longrightarrow> pins b' p = pins ?b p"
      using Cons.hyps(1) [of ?b ?v] by blast
    let ?evs = "[Read SCOPE_PIN (pins b SCOPE_PIN),
                 Write SCOPE_PIN (lnot (pins b SCOPE_PIN)), Millis r] @ evs"
    have "trace b' = trace b @ ?evs \<and> list_all dwell_event ?evs
      \<and> (\<forall>p. p \<noteq> SCOPE_PIN \<longrightarrow> pins b' p = pins b p)"
      using e by (simp add: poll_def)
    then show ?thesis by blast
  qed
qed

subsection \<open>The whole dwell\<close>

lemma loop_dwell_returns:
  assumes "clock b = t # rs" and "unat d \<le> observed (ucast t) rs"
  shows "\<exists>k v b'. loop_dwell d b = Some (v, b') \<and> k \<le> length rs \<and> clock b' = drop k rs
     \<and> delay_ms v = 0 \<and> decrements v = unat d \<and> ticks v = observed (ucast t) (take k rs)
     \<and> unat d \<le> ticks v"
proof -
  let ?v = "\<lparr>delay_ms = d, time_last = ucast t, decrements = 0, ticks = 0\<rparr>"
  let ?b = "b\<lparr>clock := rs, trace := trace b @ [Millis t]\<rparr>"
  have s: "loop_dwell d b = dwell_while ?v ?b"
    using assms(1) by (simp add: loop_dwell_def millis_def)
  have "unat (delay_ms ?v) \<le> observed (time_last ?v) (clock ?b)"
    using assms(2) by simp
  from dwell_while_returns [OF this] obtain k v b' where
    "dwell_while ?v ?b = Some (v, b')" "k \<le> length rs" "clock b' = drop k rs"
    "delay_ms v = 0" "decrements v = unat d" "ticks v = observed (ucast t) (take k rs)"
    "unat d \<le> observed (ucast t) (take k rs)"
    by auto
  then have "loop_dwell d b = Some (v, b') \<and> k \<le> length rs \<and> clock b' = drop k rs
     \<and> delay_ms v = 0 \<and> decrements v = unat d \<and> ticks v = observed (ucast t) (take k rs)
     \<and> unat d \<le> ticks v"
    by (simp add: s)
  then show ?thesis by blast
qed

lemma loop_dwell_None:
  assumes "clock b = [] \<or> (\<exists>t rs. clock b = t # rs \<and> observed (ucast t) rs < unat d)"
  shows "loop_dwell d b = None"
proof (cases "clock b")
  case Nil
  then show ?thesis by (simp add: loop_dwell_def millis_def)
next
  case (Cons t rs)
  let ?v = "\<lparr>delay_ms = d, time_last = ucast t, decrements = 0, ticks = 0\<rparr>"
  let ?b = "b\<lparr>clock := rs, trace := trace b @ [Millis t]\<rparr>"
  have s: "loop_dwell d b = dwell_while ?v ?b"
    using Cons by (simp add: loop_dwell_def millis_def)
  have "observed (time_last ?v) (clock ?b) < unat (delay_ms ?v)"
    using assms Cons by simp
  then have "dwell_while ?v ?b = None"
    by (rule dwell_while_None)
  then show ?thesis by (simp add: s)
qed

lemma loop_dwell_events:
  assumes "loop_dwell d b = Some (v, b')"
  shows "\<exists>t evs. trace b' = trace b @ Millis t # evs \<and> list_all dwell_event evs
     \<and> (\<forall>p. p \<noteq> SCOPE_PIN \<longrightarrow> pins b' p = pins b p)"
proof (cases "clock b")
  case Nil
  then show ?thesis using assms by (simp add: loop_dwell_def millis_def)
next
  case (Cons t rs)
  let ?v = "\<lparr>delay_ms = d, time_last = ucast t, decrements = 0, ticks = 0\<rparr>"
  let ?b = "b\<lparr>clock := rs, trace := trace b @ [Millis t]\<rparr>"
  have "dwell_while ?v ?b = Some (v, b')"
    using assms Cons by (simp add: loop_dwell_def millis_def)
  from dwell_while_events [OF this] show ?thesis
    by auto
qed

lemma loop_dwell_done:
  assumes "loop_dwell d b = Some (v, b')"
  shows "delay_ms v = 0"
proof (cases "clock b")
  case Nil
  then show ?thesis using assms by (simp add: loop_dwell_def millis_def)
next
  case (Cons t rs)
  show ?thesis
  proof (cases "unat d \<le> observed (ucast t) rs")
    case True
    from loop_dwell_returns [OF Cons True] assms show ?thesis by auto
  next
    case False
    then have "loop_dwell d b = None"
      using Cons by (intro loop_dwell_None) auto
    with assms show ?thesis by simp
  qed
qed

subsection \<open>One call of \<open>loop()\<close>\<close>

lemma loop_switch_clock: "clock (snd (snd (loop_switch s b))) = clock b"
  by (simp add: switch_defs split: prod.splits)

lemma loop_switch_events:
  "\<exists>evs. trace (snd (snd (loop_switch s b))) = trace b @ evs \<and> list_all switch_event evs"
  by (simp add: switch_defs split: prod.splits)

lemma loop_switch_state_cases:
  "fst (loop_switch s b) = S_WAIT_FOR_ENABLE \<or> fst (loop_switch s b) = S_WAIT_FOR_OPEN
   \<or> fst (loop_switch s b) = S_OPEN \<or> fst (loop_switch s b) = S_CLOSE"
  by (simp add: switch_defs split: prod.splits)

lemma loop_switch_to_close:
  "fst (loop_switch s b) = S_CLOSE \<Longrightarrow> pins (snd (snd (loop_switch s b))) LED_DISABLE = HIGH"
  by (simp add: switch_defs state_defs pin_defs split: prod.splits if_splits)

lemma loop_switch_default:
  "takes_default s \<Longrightarrow>
   loop_switch s b = (S_WAIT_FOR_ENABLE, DEBOUNCE_MS, digitalWrite SOLENOID_EN LOW b)"
  by (simp add: takes_default_def loop_switch_def case_default_def)

lemma loop_Some_iff:
  "loop s b = Some (s', b') \<longleftrightarrow>
   (\<exists>d b1 v b2. loop_switch s b = (s', d, b1) \<and> loop_dwell d b1 = Some (v, b2)
      \<and> b' = digitalWrite SOLENOID_EN LOW b2)"
  by (auto simp: loop_def split: prod.splits option.splits)

lemma loop_returns:
  assumes "clock b = t # rs" and "unat (fst (snd (loop_switch s b))) \<le> observed (ucast t) rs"
  shows "\<exists>b'. loop s b = Some (fst (loop_switch s b), b')"
proof -
  obtain s' d b1 where sw: "loop_switch s b = (s', d, b1)"
    by (cases "loop_switch s b") auto
  have "clock b1 = t # rs"
    using loop_switch_clock [of s b] sw assms(1) by simp
  moreover have "unat d \<le> observed (ucast t) rs"
    using assms(2) sw by simp
  ultimately obtain v b2 where "loop_dwell d b1 = Some (v, b2)"
    using loop_dwell_returns [of b1 t rs d] by blast
  then show ?thesis
    using sw by (simp add: loop_def)
qed

text \<open>A call returns exactly when the clock trace lets its dwell see enough ticks.\<close>

lemma loop_returns_iff:
  "loop s b \<noteq> None \<longleftrightarrow>
   (\<exists>t rs. clock b = t # rs \<and> unat (fst (snd (loop_switch s b))) \<le> observed (ucast t) rs)"
proof
  assume r: "loop s b \<noteq> None"
  obtain s1 d b1 where sw: "loop_switch s b = (s1, d, b1)"
    by (cases "loop_switch s b") auto
  have c: "clock b1 = clock b"
    using loop_switch_clock [of s b] sw by simp
  have nn: "loop_dwell d b1 \<noteq> None"
    using r sw by (auto simp: loop_def split: option.splits)
  show "\<exists>t rs. clock b = t # rs \<and> unat (fst (snd (loop_switch s b))) \<le> observed (ucast t) rs"
  proof (cases "clock b")
    case Nil
    then have "loop_dwell d b1 = None"
      using c by (intro loop_dwell_None) simp
    with nn show ?thesis by simp
  next
    case (Cons t rs)
    have "unat d \<le> observed (ucast t) rs"
    proof (rule ccontr)
      assume "\<not> unat d \<le> observed (ucast t) rs"
      then have "loop_dwell d b1 = None"
        using c Cons by (intro loop_dwell_None) auto
      with nn show False by simp
    qed
    then show ?thesis using Cons sw by simp
  qed
next
  assume "\<exists>t rs. clock b = t # rs \<and> unat (fst (snd (loop_switch s b))) \<le> observed (ucast t) rs"
  then obtain t rs where "clock b = t # rs"
    "unat (fst (snd (loop_switch s b))) \<le> observed (ucast t) rs"
    by blast
  from loop_returns [OF this] show "loop s b \<noteq> None"
    by auto
qed

text \<open>
  The log of a call that returns: the calls of the switch, then the calls of the dwell,
  the first of them \<open>millis()\<close>, then one write that turns the solenoid off.
\<close>

lemma loop_shape:
  assumes "loop s b = Some (s', b')"
  shows "\<exists>d b1 v b2 t.
         loop_switch s b = (s', d, b1) \<and> loop_dwell d b1 = Some (v, b2) \<and> delay_ms v = 0
         \<and> b' = digitalWrite SOLENOID_EN LOW b2
         \<and> trace b' = trace b @ events_since b b'
         \<and> list_all switch_event (events_since b b1)
         \<and> hd (events_since b1 b2) = Millis t
         \<and> list_all dwell_event (events_since b1 b2)
         \<and> events_since b b' = events_since b b1 @ events_since b1 b2 @ [Write SOLENOID_EN LOW]
         \<and> pins b' SOLENOID_EN = LOW"
proof -
  from assms obtain d b1 v b2 where sw: "loop_switch s b = (s', d, b1)"
    and dw: "loop_dwell d b1 = Some (v, b2)" and fin: "b' = digitalWrite SOLENOID_EN LOW b2"
    unfolding loop_Some_iff by blast
  obtain e1 where e1: "trace b1 = trace b @ e1" "list_all switch_event e1"
    using loop_switch_events [of s b] sw by auto
  obtain t e2 where e2: "trace b2 = trace b1 @ Millis t # e2" "list_all dwell_event e2"
    using loop_dwell_events [OF dw] by blast
  have "loop_switch s b = (s', d, b1) \<and> loop_dwell d b1 = Some (v, b2) \<and> delay_ms v = 0
         \<and> b' = digitalWrite SOLENOID_EN LOW b2
         \<and> trace b' = trace b @ events_since b b'
         \<and> list_all switch_event (events_since b b1)
         \<and> hd (events_since b1 b2) = Millis t
         \<and> list_all dwell_event (events_since b1 b2)
         \<and> events_since b b' = events_since b b1 @ events_since b1 b2 @ [Write SOLENOID_EN LOW]
         \<and> pins b' SOLENOID_EN = LOW"
    using sw dw fin e1 e2 loop_dwell_done [OF dw]
    by (simp add: events_since_def digitalWrite_def)
  then show ?thesis
    by blast
qed

lemma loop_result:
  assumes "loop s b = Some (s', b')"
  shows "s' = fst (loop_switch s b)
    \<and> pins b' LED_DISABLE = pins (snd (snd (loop_switch s b))) LED_DISABLE
    \<and> writes_to LED_DISABLE (events_since b b')
        = writes_to LED_DISABLE (events_since b (snd (snd (loop_switch s b))))"
proof -
  from assms obtain d b1 v b2 where sw: "loop_switch s b = (s', d, b1)"
    and dw: "loop_dwell d b1 = Some (v, b2)" and fin: "b' = digitalWrite SOLENOID_EN LOW b2"
    unfolding loop_Some_iff by blast
  obtain e1 where e1: "trace b1 = trace b @ e1"
    using loop_switch_events [of s b] sw by auto
  obtain t e2 where e2: "trace b2 = trace b1 @ Millis t # e2" "list_all dwell_event e2"
    "\<forall>p. p \<noteq> SCOPE_PIN \<longrightarrow> pins b2 p = pins b1 p"
    using loop_dwell_events [OF dw] by blast
  have "pins b2 LED_DISABLE = pins b1 LED_DISABLE"
    using e2(3) by (simp add: pin_defs)
  then have "pins b' LED_DISABLE = pins b1 LED_DISABLE"
    using fin by (simp add: digitalWrite_def pin_defs)
  moreover have "writes_to LED_DISABLE (events_since b b') = writes_to LED_DISABLE e1"
    using fin e1 e2 dwell_events_no_led [OF e2(2)]
    by (simp add: events_since_def digitalWrite_def writes_to_append pin_defs)
  moreover have "events_since b b1 = e1"
    using e1 by (simp add: events_since_def)
  ultimately show ?thesis
    using sw by simp
qed

subsection \<open>Calls one after another\<close>

lemma loop_invariant:
  assumes "loop s b = Some (s', b')"
  shows "\<not> takes_default s' \<and> (s' = S_CLOSE \<longrightarrow> pins b' LED_DISABLE = HIGH)"
  using loop_result [OF assms] loop_switch_state_cases [of s b] loop_switch_to_close [of s b]
  by (auto simp: takes_default_def)

lemma run_invariant:
  assumes "run s b ws = Some (s', b')"
    and "\<not> takes_default s \<and> (s = S_CLOSE \<longrightarrow> pins b LED_DISABLE = HIGH)"
  shows "\<not> takes_default s' \<and> (s' = S_CLOSE \<longrightarrow> pins b' LED_DISABLE = HIGH)"
  using assms
proof (induction ws arbitrary: s b)
  case Nil
  then show ?case by simp
next
  case (Cons w ws)
  obtain dis opn ts where w: "w = (dis, opn, ts)"
    by (cases w) auto
  from Cons.prems(1) w obtain s1 b1 where l: "loop s (world dis opn ts b) = Some (s1, b1)"
    and r: "run s1 b1 ws = Some (s', b')"
    by (auto split: option.splits)
  from loop_invariant [OF l] r show ?case
    by (rule Cons.IH [rotated])
qed

lemma close_iteration:
  assumes "pins b LED_DISABLE = HIGH"
  shows "events_since (world dis opn ts b) (snd (snd (loop_switch S_CLOSE (world dis opn ts b))))
           = [Write SOLENOID_EN LOW]
     \<and> (\<forall>s2 b2. loop S_CLOSE (world dis opn ts b) = Some (s2, b2) \<longrightarrow>
           writes_to LED_DISABLE (events_since (world dis opn ts b) b2) = []
           \<and> pins b2 LED_DISABLE = HIGH)"
proof (intro conjI allI impI)
  show e: "events_since (world dis opn ts b) (snd (snd (loop_switch S_CLOSE (world dis opn ts b))))
      = [Write SOLENOID_EN LOW]"
    by (simp add: switch_defs state_defs events_since_def)
  fix s2 b2
  assume l: "loop S_CLOSE (world dis opn ts b) = Some (s2, b2)"
  have p: "pins (snd (snd (loop_switch S_CLOSE (world dis opn ts b)))) LED_DISABLE = HIGH"
    using assms by (simp add: switch_defs state_defs world_def switches_def pin_defs)
  show "writes_to LED_DISABLE (events_since (world dis opn ts b) b2) = []"
    using loop_result [OF l] e by (simp add: pin_defs)
  show "pins b2 LED_DISABLE = HIGH"
    using loop_result [OF l] p by simp
qed

section \<open>The specified behaviour\<close>

text \<open>
  The switches are wired to pulled-up inputs: a switch that is pressed (asserted) reads
  \<open>LOW\<close>, a switch that is released reads \<open>HIGH\<close>.
\<close>

text \<open>
  C1. Whatever the state and whatever the two switches read, the switch writes the
  solenoid pin exactly once, and it writes \<open>HIGH\<close> if and only if the state is
  \<open>S_OPEN\<close>; in the three other states and in the default branch it writes \<open>LOW\<close>.
  The pin has the written level when the switch is left.
\<close>

theorem solenoid_on_iff_open:
  "writes_to SOLENOID_EN (events_since b (snd (snd (loop_switch s b))))
     = [if s = S_OPEN then HIGH else LOW]
   \<and> (pins (snd (snd (loop_switch s b))) SOLENOID_EN = HIGH \<longleftrightarrow> s = S_OPEN)"
  by (simp add: switch_defs events_since_def state_defs pin_defs)

theorem solenoid_on_iff_open_witness:
  "writes_to SOLENOID_EN
     (events_since board_after_setup (snd (snd (loop_switch S_OPEN board_after_setup)))) = [HIGH]
   \<and> pins (snd (snd (loop_switch S_OPEN board_after_setup))) SOLENOID_EN = HIGH
   \<and> writes_to SOLENOID_EN
     (events_since board_after_setup (snd (snd (loop_switch S_CLOSE board_after_setup)))) = [LOW]
   \<and> pins (snd (snd (loop_switch S_CLOSE board_after_setup))) SOLENOID_EN \<noteq> HIGH"
  using solenoid_on_iff_open [where s = S_OPEN and b = board_after_setup]
    solenoid_on_iff_open [where s = S_CLOSE and b = board_after_setup]
  by (simp add: state_defs)

text \<open>
  C2. In state \<open>S_WAIT_FOR_OPEN\<close>, when the disable switch and the open switch are both
  pressed, the switch goes to \<open>S_WAIT_FOR_ENABLE\<close> and not to \<open>S_OPEN\<close>: the disable
  switch is tested first.
\<close>

theorem disable_beats_open:
  "pins b SW_DISABLE = LOW \<Longrightarrow> pins b SW_OPEN = LOW \<Longrightarrow>
   fst (loop_switch S_WAIT_FOR_OPEN b) = S_WAIT_FOR_ENABLE
   \<and> fst (loop_switch S_WAIT_FOR_OPEN b) \<noteq> S_OPEN"
  by (simp add: switch_defs state_defs)

theorem disable_beats_open_witness:
  "pins (switches LOW LOW board_after_setup) SW_DISABLE = LOW
   \<and> pins (switches LOW LOW board_after_setup) SW_OPEN = LOW
   \<and> fst (loop_switch S_WAIT_FOR_OPEN (switches LOW LOW board_after_setup)) = S_WAIT_FOR_ENABLE
   \<and> fst (loop_switch S_WAIT_FOR_OPEN (switches LOW LOW board_after_setup)) \<noteq> S_OPEN"
proof -
  have h1: "pins (switches LOW LOW board_after_setup) SW_DISABLE = LOW"
    by (simp add: switches_def pin_defs)
  have h2: "pins (switches LOW LOW board_after_setup) SW_OPEN = LOW"
    by (simp add: switches_def)
  from disable_beats_open [OF h1 h2] h1 h2 show ?thesis
    by blast
qed

text \<open>
  C3. In state \<open>S_WAIT_FOR_ENABLE\<close> the switch goes to \<open>S_WAIT_FOR_OPEN\<close> exactly when
  the disable switch and the open switch are both released, and otherwise it stays in
  \<open>S_WAIT_FOR_ENABLE\<close>; so it stays when the disable switch is released and the open
  switch is still pressed.
\<close>

theorem enable_needs_both_clear:
  "(fst (loop_switch S_WAIT_FOR_ENABLE b) = S_WAIT_FOR_OPEN
      \<longleftrightarrow> pins b SW_DISABLE = HIGH \<and> pins b SW_OPEN = HIGH)
   \<and> (fst (loop_switch S_WAIT_FOR_ENABLE b) \<noteq> S_WAIT_FOR_OPEN
      \<longrightarrow> fst (loop_switch S_WAIT_FOR_ENABLE b) = S_WAIT_FOR_ENABLE)
   \<and> (pins b SW_DISABLE = HIGH \<and> pins b SW_OPEN = LOW
      \<longrightarrow> fst (loop_switch S_WAIT_FOR_ENABLE b) = S_WAIT_FOR_ENABLE)"
  by (auto simp add: switch_defs state_defs split: prod.splits if_splits)

theorem enable_needs_both_clear_witness:
  "pins (switches HIGH LOW board_after_setup) SW_DISABLE = HIGH
   \<and> pins (switches HIGH LOW board_after_setup) SW_OPEN = LOW
   \<and> fst (loop_switch S_WAIT_FOR_ENABLE (switches HIGH LOW board_after_setup)) = S_WAIT_FOR_ENABLE
   \<and> pins (switches HIGH HIGH board_after_setup) SW_DISABLE = HIGH
   \<and> pins (switches HIGH HIGH board_after_setup) SW_OPEN = HIGH
   \<and> fst (loop_switch S_WAIT_FOR_ENABLE (switches HIGH HIGH board_after_setup)) = S_WAIT_FOR_OPEN"
proof -
  have h: "pins (switches HIGH LOW board_after_setup) SW_DISABLE = HIGH
      \<and> pins (switches HIGH LOW board_after_setup) SW_OPEN = LOW"
    by (simp add: switches_def pin_defs)
  have g: "pins (switches HIGH HIGH board_after_setup) SW_DISABLE = HIGH
      \<and> pins (switches HIGH HIGH board_after_setup) SW_OPEN = HIGH"
    by (simp add: switches_def pin_defs)
  from enable_needs_both_clear [of "switches HIGH LOW board_after_setup"]
    enable_needs_both_clear [of "switches HIGH HIGH board_after_setup"] h g
  show ?thesis
    by blast
qed

text \<open>
  C4. A call of \<open>loop()\<close> returns exactly when the clock trace lets the dwell see as many
  ticks as the state asked for. The log of a call that returns is, in any state: the
  calls of the switch (reads of the two switches, writes to the solenoid and the LED), then
  the calls of the dwell, which begin with \<open>millis()\<close>, touch only the clock and the scope
  pin and end with \<open>delay_ms\<close> at 0, then the write that turns the solenoid off, which is
  the last call before the next call of \<open>loop()\<close> samples a switch. The solenoid pin is
  \<open>LOW\<close> when the call returns.
\<close>

theorem solenoid_off_after_dwell:
  "(loop s b \<noteq> None \<longleftrightarrow>
      (\<exists>t rs. clock b = t # rs \<and> unat (fst (snd (loop_switch s b))) \<le> observed (ucast t) rs))
   \<and> (loop s b = Some (s', b') \<longrightarrow>
      (\<exists>d b1 v b2 t.
         loop_switch s b = (s', d, b1) \<and> loop_dwell d b1 = Some (v, b2) \<and> delay_ms v = 0
         \<and> b' = digitalWrite SOLENOID_EN LOW b2
         \<and> trace b' = trace b @ events_since b b'
         \<and> list_all switch_event (events_since b b1)
         \<and> hd (events_since b1 b2) = Millis t
         \<and> list_all dwell_event (events_since b1 b2)
         \<and> events_since b b' = events_since b b1 @ events_since b1 b2 @ [Write SOLENOID_EN LOW]
         \<and> pins b' SOLENOID_EN = LOW))"
  using loop_returns_iff [of s b] loop_shape [of s b s' b'] by blast

theorem solenoid_off_after_dwell_witness:
  "(\<exists>t rs. clock (world HIGH HIGH [1000, 1200, 1500] board_after_setup) = t # rs
      \<and> unat (fst (snd (loop_switch S_OPEN (world HIGH HIGH [1000, 1200, 1500] board_after_setup))))
          \<le> observed (ucast t) rs)
   \<and> (\<exists>b'. loop S_OPEN (world HIGH HIGH [1000, 1200, 1500] board_after_setup) = Some (S_CLOSE, b')
        \<and> pins b' SOLENOID_EN = LOW
        \<and> last (events_since (world HIGH HIGH [1000, 1200, 1500] board_after_setup) b')
            = Write SOLENOID_EN LOW)"
proof -
  let ?b = "world HIGH HIGH [1000, 1200, 1500] board_after_setup"
  have d: "fst (snd (loop_switch S_OPEN ?b)) = 500" and s: "fst (loop_switch S_OPEN ?b) = S_CLOSE"
    by (simp_all add: switch_defs state_defs time_defs)
  have c: "clock ?b = [1000, 1200, 1500]"
    by (simp add: world_def)
  have "clock ?b = 1000 # [1200, 1500]
      \<and> unat (fst (snd (loop_switch S_OPEN ?b))) \<le> observed (ucast (1000 :: UINT32)) [1200, 1500]"
    by (simp add: d c)
  then have h: "\<exists>t rs. clock ?b = t # rs
      \<and> unat (fst (snd (loop_switch S_OPEN ?b))) \<le> observed (ucast t) rs"
    by blast
  have "loop S_OPEN ?b \<noteq> None"
    using solenoid_off_after_dwell [of S_OPEN ?b, THEN conjunct1] h by (rule iffD2)
  then obtain s' b' where l: "loop S_OPEN ?b = Some (s', b')"
    by auto
  from solenoid_off_after_dwell [of S_OPEN ?b s' b', THEN conjunct2, rule_format, OF l]
  obtain d b1 v b2 where "loop_switch S_OPEN ?b = (s', d, b1)" "pins b' SOLENOID_EN = LOW"
    "events_since ?b b' = events_since ?b b1 @ events_since b1 b2 @ [Write SOLENOID_EN LOW]"
    by blast
  with l s have "loop S_OPEN ?b = Some (S_CLOSE, b') \<and> pins b' SOLENOID_EN = LOW
        \<and> last (events_since ?b b') = Write SOLENOID_EN LOW"
    by simp
  with h show ?thesis
    by blast
qed

text \<open>
  C5. When \<open>state\<close> holds none of the four state values, the switch takes the default
  branch: it sets \<open>state\<close> to \<open>S_WAIT_FOR_ENABLE\<close>, makes one call, the write that turns
  the solenoid off, and sets \<open>delay_ms\<close> to \<open>DEBOUNCE_MS\<close>, 20 ms. Nothing else happens:
  the call of \<open>loop()\<close> goes on to its dwell like any other, returns when the clock has
  let it see 20 ticks, and leaves \<open>S_WAIT_FOR_ENABLE\<close> in \<open>state\<close> and the solenoid off.
\<close>

theorem invalid_state_resets:
  assumes "takes_default s"
  shows "loop_switch s b = (S_WAIT_FOR_ENABLE, DEBOUNCE_MS, digitalWrite SOLENOID_EN LOW b)
     \<and> events_since b (snd (snd (loop_switch s b))) = [Write SOLENOID_EN LOW]
     \<and> pins (snd (snd (loop_switch s b))) SOLENOID_EN = LOW
     \<and> unat DEBOUNCE_MS = 20
     \<and> (loop s b \<noteq> None \<longleftrightarrow> (\<exists>t rs. clock b = t # rs \<and> 20 \<le> observed (ucast t) rs))
     \<and> (loop s b = Some (s', b') \<longrightarrow> s' = S_WAIT_FOR_ENABLE \<and> pins b' SOLENOID_EN = LOW)"
proof -
  have sw: "loop_switch s b = (S_WAIT_FOR_ENABLE, DEBOUNCE_MS, digitalWrite SOLENOID_EN LOW b)"
    using assms by (rule loop_switch_default)
  have "events_since b (snd (snd (loop_switch s b))) = [Write SOLENOID_EN LOW]"
    "pins (snd (snd (loop_switch s b))) SOLENOID_EN = LOW"
    "unat DEBOUNCE_MS = 20"
    by (simp_all add: sw events_since_def digitalWrite_def DEBOUNCE_MS_def)
  moreover have "loop s b \<noteq> None \<longleftrightarrow> (\<exists>t rs. clock b = t # rs \<and> 20 \<le> observed (ucast t) rs)"
    using loop_returns_iff [of s b] by (simp add: sw DEBOUNCE_MS_def)
  moreover have "loop s b = Some (s', b') \<longrightarrow> s' = S_WAIT_FOR_ENABLE \<and> pins b' SOLENOID_EN = LOW"
    using loop_shape [of s b s' b'] by (auto simp: sw)
  ultimately show ?thesis
    using sw by blast
qed

theorem invalid_state_resets_witness:
  "takes_default 0
   \<and> loop_switch 0 (world HIGH HIGH [7, 30] board_after_setup)
       = (S_WAIT_FOR_ENABLE, DEBOUNCE_MS,
          digitalWrite SOLENOID_EN LOW (world HIGH HIGH [7, 30] board_after_setup))
   \<and> loop 0 (world HIGH HIGH [7, 30] board_after_setup) \<noteq> None"
proof -
  let ?b = "world HIGH HIGH [7, 30] board_after_setup"
  have h: "takes_default 0"
    by (simp add: takes_default_def state_defs)
  have "clock ?b = 7 # [30] \<and> 20 \<le> observed (ucast (7 :: UINT32)) [30]"
    by (simp add: world_def)
  then have "\<exists>t rs. clock ?b = t # rs \<and> 20 \<le> observed (ucast t) rs"
    by blast
  with invalid_state_resets [OF h, where b = ?b] h show ?thesis
    by blast
qed

text \<open>
  C6. A dwell of \<open>D\<close> milliseconds on a clock trace whose readings are less than
  65536 ms apart and which advances by at least \<open>D\<close> ticks returns, at one of the
  readings. Up to there every tick of the clock was counted once (\<open>ticks\<close> is the advance
  of the clock over the readings taken), \<open>delay_ms--\<close> ran once for each counted tick
  as long as \<open>delay_ms\<close> was not 0 and not at all afterwards, \<open>D\<close> times in all, and
  \<open>delay_ms\<close> is 0 and has not wrapped around. The same holds pass by pass: a pass of
  the outer loop that finds the 16-bit clock \<open>n\<close> ticks ahead counts \<open>n\<close> ticks and
  takes the smaller of \<open>n\<close> and \<open>delay_ms\<close> away from \<open>delay_ms\<close>.
\<close>

theorem dwell_accounting:
  assumes "polled_in_time t rs" and "unat D \<le> advance t rs"
  shows "(\<exists>k v b'. loop_dwell D (b\<lparr>clock := t # rs\<rparr>) = Some (v, b')
        \<and> delay_ms v = 0 \<and> decrements v = unat D
        \<and> k \<le> length rs \<and> clock b' = drop k rs \<and> ticks v = advance t (take k rs)
        \<and> decrements v = min (unat D) (ticks v))
     \<and> (\<forall>tc u. ticks (catch_up tc u) = ticks u + unat (tc - time_last u)
          \<and> decrements (catch_up tc u)
              = decrements u + min (unat (delay_ms u)) (unat (tc - time_last u))
          \<and> unat (delay_ms (catch_up tc u)) = unat (delay_ms u) - unat (tc - time_last u))"
proof -
  have o: "observed (ucast t) rs = advance t rs"
    using assms(1) by (rule observed_eq_advance)
  have "clock (b\<lparr>clock := t # rs\<rparr>) = t # rs"
    by simp
  moreover have "unat D \<le> observed (ucast t) rs"
    using assms(2) o by simp
  ultimately obtain k v b' where r: "loop_dwell D (b\<lparr>clock := t # rs\<rparr>) = Some (v, b')"
    "k \<le> length rs" "clock b' = drop k rs" "delay_ms v = 0" "decrements v = unat D"
    "ticks v = observed (ucast t) (take k rs)" "unat D \<le> ticks v"
    using loop_dwell_returns [of "b\<lparr>clock := t # rs\<rparr>" t rs D] by blast
  have tk: "ticks v = advance t (take k rs)"
    using r(6) observed_eq_advance [OF polled_in_time_take [OF assms(1)], of k] by simp
  have "loop_dwell D (b\<lparr>clock := t # rs\<rparr>) = Some (v, b')
      \<and> delay_ms v = 0 \<and> decrements v = unat D
      \<and> k \<le> length rs \<and> clock b' = drop k rs \<and> ticks v = advance t (take k rs)
      \<and> decrements v = min (unat D) (ticks v)"
    using r tk by simp
  then have "\<exists>k v b'. loop_dwell D (b\<lparr>clock := t # rs\<rparr>) = Some (v, b')
        \<and> delay_ms v = 0 \<and> decrements v = unat D
        \<and> k \<le> length rs \<and> clock b' = drop k rs \<and> ticks v = advance t (take k rs)
        \<and> decrements v = min (unat D) (ticks v)"
    by blast
  then show ?thesis
    using catch_up_fields by simp
qed

theorem dwell_accounting_witness:
  "polled_in_time 1000 [1007, 1025] \<and> unat (20 :: UINT16) \<le> advance 1000 [1007, 1025]
   \<and> (\<exists>k v b'. loop_dwell 20 (board_after_setup\<lparr>clock := [1000, 1007, 1025]\<rparr>) = Some (v, b')
      \<and> delay_ms v = 0 \<and> decrements v = unat (20 :: UINT16)
      \<and> k \<le> length [1007, 1025 :: UINT32] \<and> clock b' = drop k [1007, 1025]
      \<and> ticks v = advance 1000 (take k [1007, 1025])
      \<and> decrements v = min (unat (20 :: UINT16)) (ticks v))"
proof -
  have h1: "polled_in_time 1000 [1007, 1025]"
    by simp
  have h2: "unat (20 :: UINT16) \<le> advance 1000 [1007, 1025]"
    by simp
  from dwell_accounting [OF h1 h2, where b = board_after_setup] h1 h2 show ?thesis
    by blast
qed

text \<open>
  Without the bound on the distance of the readings the dwell loses ticks. The clock
  moves from 0 to 65536 between two readings: the 16-bit \<open>time_cur\<close> is 0 again, a dwell
  of 20 ms has seen no tick and has not returned although 65536 ms have passed. With a
  third reading at 65556 it returns, having counted 20 of the 65556 ticks.
\<close>

theorem dwell_accounting_counterexample:
  "unat (20 :: UINT16) \<le> advance 0 [65536]
   \<and> loop_dwell 20 (board_after_setup\<lparr>clock := [0, 65536]\<rparr>) = None
   \<and> map_option (\<lambda>(v, b). (delay_ms v, decrements v, ticks v))
        (loop_dwell 20 (board_after_setup\<lparr>clock := [0, 65536, 65556]\<rparr>)) = Some (0, 20, 20)
   \<and> advance 0 [65536, 65556] = 65556"
  by (simp add: loop_dwell_def millis_def dwell_while.simps catch_up.simps
      digitalRead_def digitalWrite_def)

text \<open>
  C7. The timing constants are 20, 500 and 5000 milliseconds, and the solenoid is on for
  at most a tenth of a pulse and cool-down period: 500 / (500 + 5000) is at most 1/10 and
  5000 / (5000 + 500) is at least 9/10, as rational numbers.
\<close>

theorem duty_cycle_constants:
  "unat DEBOUNCE_MS = 20 \<and> unat SOLENOID_TIME_ON_MS = 500 \<and> unat SOLENOID_TIME_OFF_MS = 5000
   \<and> (of_nat (unat SOLENOID_TIME_ON_MS) :: rat)
       / (of_nat (unat SOLENOID_TIME_ON_MS) + of_nat (unat SOLENOID_TIME_OFF_MS)) \<le> 1 / 10
   \<and> (of_nat (unat SOLENOID_TIME_OFF_MS) :: rat)
       / (of_nat (unat SOLENOID_TIME_OFF_MS) + of_nat (unat SOLENOID_TIME_ON_MS)) \<ge> 9 / 10"
  by (simp add: time_defs)

text \<open>
  C8. From \<open>S_WAIT_FOR_ENABLE\<close>, on any board: a call with both switches released goes
  to \<open>S_WAIT_FOR_OPEN\<close>, a second such call stays there, a call with the disable switch
  released and the open switch pressed goes to \<open>S_OPEN\<close> with the solenoid off and a
  dwell of 20 ms, the next call, whatever the switches, goes to \<open>S_CLOSE\<close> with the
  solenoid on and a dwell of 500 ms, and the call after it, whatever the switches, goes to
  \<open>S_WAIT_FOR_ENABLE\<close> with the solenoid off and a dwell of 5000 ms. The solenoid is
  switched on by the call that runs the branch of \<open>S_OPEN\<close>, not by the call that
  enters \<open>S_OPEN\<close>.
\<close>

theorem cycle_scenario:
  "steps S_WAIT_FOR_ENABLE b [(HIGH, HIGH), (HIGH, HIGH), (HIGH, LOW), (d4, o4), (d5, o5)]
     = [(S_WAIT_FOR_OPEN, 20, LOW), (S_WAIT_FOR_OPEN, 20, LOW), (S_OPEN, 20, LOW),
        (S_CLOSE, 500, HIGH), (S_WAIT_FOR_ENABLE, 5000, LOW)]"
  by (simp add: switch_defs switches_def state_defs pin_defs time_defs)

text \<open>
  The third call of the scenario, the one that goes to \<open>S_OPEN\<close>, leaves the solenoid
  off and asks for 20 ms, not for the solenoid on and 500 ms.
\<close>

theorem cycle_scenario_counterexample:
  "steps S_WAIT_FOR_ENABLE board_after_setup [(HIGH, HIGH), (HIGH, HIGH), (HIGH, LOW)] ! 2
     = (S_OPEN, 20, LOW)
   \<and> steps S_WAIT_FOR_ENABLE board_after_setup [(HIGH, HIGH), (HIGH, HIGH), (HIGH, LOW)] ! 2
     \<noteq> (S_OPEN, 500, HIGH)"
  by (simp add: switch_defs switches_def state_defs pin_defs time_defs board_after_setup_def)

text \<open>
  C9. On every board, so whatever the two switches read, the switch goes from \<open>S_OPEN\<close>
  to \<open>S_CLOSE\<close> and from \<open>S_CLOSE\<close> to \<open>S_WAIT_FOR_ENABLE\<close>, and in both branches
  the calls it makes are writes only: the LED and the solenoid in \<open>S_OPEN\<close>, the
  solenoid in \<open>S_CLOSE\<close>. Neither branch calls \<open>digitalRead\<close>, and setting the
  switches differently changes neither the next state nor the dwell nor the calls.
\<close>

theorem open_close_unconditional:
  "fst (loop_switch S_OPEN b) = S_CLOSE
   \<and> events_since b (snd (snd (loop_switch S_OPEN b)))
       = [Write LED_DISABLE HIGH, Write SOLENOID_EN HIGH]
   \<and> fst (loop_switch S_CLOSE b) = S_WAIT_FOR_ENABLE
   \<and> events_since b (snd (snd (loop_switch S_CLOSE b))) = [Write SOLENOID_EN LOW]
   \<and> fst (loop_switch S_OPEN (switches dis opn b)) = fst (loop_switch S_OPEN b)
   \<and> fst (snd (loop_switch S_OPEN (switches dis opn b))) = fst (snd (loop_switch S_OPEN b))
   \<and> events_since (switches dis opn b) (snd (snd (loop_switch S_OPEN (switches dis opn b))))
       = events_since b (snd (snd (loop_switch S_OPEN b)))
   \<and> fst (loop_switch S_CLOSE (switches dis opn b)) = fst (loop_switch S_CLOSE b)
   \<and> fst (snd (loop_switch S_CLOSE (switches dis opn b))) = fst (snd (loop_switch S_CLOSE b))
   \<and> events_since (switches dis opn b) (snd (snd (loop_switch S_CLOSE (switches dis opn b))))
       = events_since b (snd (snd (loop_switch S_CLOSE b)))"
  by (simp add: switch_defs events_since_def state_defs switches_def)

text \<open>
  C10. \<open>state\<close> starts as \<open>S_WAIT_FOR_ENABLE\<close>. After any number of calls of
  \<open>loop()\<close>, whatever the switches and the clock did, \<open>state\<close> holds one of the four
  state values, so the next call does not take the default branch. When it holds
  \<open>S_CLOSE\<close> the LED is on, and the next call, which runs the branch of \<open>S_CLOSE\<close>,
  makes one call in its switch, the write that turns the solenoid off, writes the LED
  nowhere in switch and dwell, and returns with the LED still on.
\<close>

theorem reachable_states_valid:
  assumes "run S_WAIT_FOR_ENABLE b ws = Some (s, b')"
  shows "(s = S_WAIT_FOR_ENABLE \<or> s = S_WAIT_FOR_OPEN \<or> s = S_OPEN \<or> s = S_CLOSE)
     \<and> \<not> takes_default s
     \<and> (s = S_CLOSE \<longrightarrow>
          pins b' LED_DISABLE = HIGH
          \<and> events_since (world dis opn ts b') (snd (snd (loop_switch s (world dis opn ts b'))))
              = [Write SOLENOID_EN LOW]
          \<and> (\<forall>s2 b2. loop s (world dis opn ts b') = Some (s2, b2) \<longrightarrow>
                writes_to LED_DISABLE (events_since (world dis opn ts b') b2) = []
                \<and> pins b2 LED_DISABLE = HIGH))"
proof -
  have "\<not> takes_default S_WAIT_FOR_ENABLE
      \<and> (S_WAIT_FOR_ENABLE = S_CLOSE \<longrightarrow> pins b LED_DISABLE = HIGH)"
    by (simp add: takes_default_def state_defs)
  with assms have inv: "\<not> takes_default s \<and> (s = S_CLOSE \<longrightarrow> pins b' LED_DISABLE = HIGH)"
    by (rule run_invariant)
  then have "s = S_WAIT_FOR_ENABLE \<or> s = S_WAIT_FOR_OPEN \<or> s = S_OPEN \<or> s = S_CLOSE"
    by (auto simp: takes_default_def)
  with inv show ?thesis
    using close_iteration [of b' dis opn ts] by blast
qed

theorem reachable_states_valid_witness:
  "\<exists>b'. run S_WAIT_FOR_ENABLE board_after_setup
           [(HIGH, HIGH, [0, 20]), (HIGH, LOW, [20, 30, 40]), (LOW, LOW, [40, 300, 541])]
         = Some (S_CLOSE, b')
       \<and> \<not> takes_default S_CLOSE \<and> pins b' LED_DISABLE = HIGH"
proof -
  let ?ws = "[(HIGH, HIGH, [0, 20]), (HIGH, LOW, [20, 30, 40]), (LOW, LOW, [40, 300, 541])]"
  let ?b0 = "world HIGH HIGH [0, 20] board_after_setup"
  have "fst (loop_switch S_WAIT_FOR_ENABLE ?b0) = S_WAIT_FOR_OPEN"
    "fst (snd (loop_switch S_WAIT_FOR_ENABLE ?b0)) = 20"
    by (simp_all add: switch_defs state_defs time_defs world_def switches_def pin_defs
        board_after_setup_def)
  then obtain b1 where l1: "loop S_WAIT_FOR_ENABLE ?b0 = Some (S_WAIT_FOR_OPEN, b1)"
    using loop_returns [of ?b0 0 "[20]" S_WAIT_FOR_ENABLE] by (auto simp: world_def)
  let ?b1 = "world HIGH LOW [20, 30, 40] b1"
  have "fst (loop_switch S_WAIT_FOR_OPEN ?b1) = S_OPEN"
    "fst (snd (loop_switch S_WAIT_FOR_OPEN ?b1)) = 20"
    by (simp_all add: switch_defs state_defs time_defs world_def switches_def pin_defs)
  then obtain b2 where l2: "loop S_WAIT_FOR_OPEN ?b1 = Some (S_OPEN, b2)"
    using loop_returns [of ?b1 20 "[30, 40]" S_WAIT_FOR_OPEN] by (auto simp: world_def)
  let ?b2 = "world LOW LOW [40, 300, 541] b2"
  have "fst (loop_switch S_OPEN ?b2) = S_CLOSE"
    "fst (snd (loop_switch S_OPEN ?b2)) = 500"
    by (simp_all add: switch_defs state_defs time_defs)
  then obtain b3 where l3: "loop S_OPEN ?b2 = Some (S_CLOSE, b3)"
    using loop_returns [of ?b2 40 "[300, 541]" S_OPEN] by (auto simp: world_def)
  have r: "run S_WAIT_FOR_ENABLE board_after_setup ?ws = Some (S_CLOSE, b3)"
    using l1 l2 l3 by simp
  from reachable_states_valid [OF r] r show ?thesis
    by blast
qed

end
